theory Spec2Isabelle
  imports Main
begin

section \<open>JavaScript strings\<close>

text \<open>
  A JavaScript string is modelled as a \<^typ>\<open>string\<close>: one \<^typ>\<open>char\<close> per code unit, for the
  code units below 256. \<open>String.prototype.trim\<close> removes white space and line terminators
  from both ends; in that range these are TAB, LF, VT, FF, CR, SPACE and NBSP. A string is
  truthy exactly when it is not empty.
\<close>

definition js_whitespace :: "char \<Rightarrow> bool" where
  "js_whitespace c =
     (c = CHR 0x09 \<or> c = CHR 0x0A \<or> c = CHR 0x0B \<or> c = CHR 0x0C \<or> c = CHR 0x0D
      \<or> c = CHR 0x20 \<or> c = CHR 0xA0)"

definition js_trim :: "string \<Rightarrow> string" where
  "js_trim s = rev (dropWhile js_whitespace (rev (dropWhile js_whitespace s)))"

definition js_truthy :: "string \<Rightarrow> bool" where
  "js_truthy s = (s \<noteq> [])"

section \<open>The UserInput component\<close>

text \<open>
  The component's state is the \<open>input\<close> string (\<open>useState('')\<close>); \<open>disabled\<close> and
  \<open>placeholder\<close> are props. The prop \<open>onSendMessage\<close> is a callback: the model returns the
  list of arguments it is called with, in order.
\<close>

record UserInput =
  input :: string
  placeholder :: string
  disabled :: bool

record KeyboardEvent =
  key :: string
  shiftKey :: bool

definition handleInputChange :: "UserInput \<Rightarrow> string \<Rightarrow> UserInput" where
  "handleInputChange u v = u\<lparr>input := v\<rparr>"

definition UserInput_sendMessage :: "UserInput \<Rightarrow> string list \<times> UserInput" where
  "UserInput_sendMessage u =
     (if js_truthy (js_trim (input u)) \<and> \<not> disabled u
      then ([input u], u\<lparr>input := ''''\<rparr>)
      else ([], u))"

text \<open>The first component of the result of \<open>handleKeyDown\<close> says whether \<open>preventDefault\<close> ran.\<close>

definition handleKeyDown :: "UserInput \<Rightarrow> KeyboardEvent \<Rightarrow> bool \<times> string list \<times> UserInput" where
  "handleKeyDown u e =
     (if key e = ''Enter'' \<and> \<not> shiftKey e
      then (True, UserInput_sendMessage u)
      else (False, [], u))"

section \<open>More JavaScript string operations\<close>

text \<open>
  \<open>s.split(sep)\<close> for a one-character separator (the empty string splits into one empty
  part), \<open>parts.join(sep)\<close> and \<open>s.startsWith(p)\<close>.
\<close>

fun js_split_char :: "char \<Rightarrow> string \<Rightarrow> string list" where
  "js_split_char sep [] = [[]]"
| "js_split_char sep (c # cs) =
     (if c = sep then [] # js_split_char sep cs
      else (case js_split_char sep cs of
              [] \<Rightarrow> [[c]]
            | p # ps \<Rightarrow> (c # p) # ps))"



fun strip_prefix :: "string \<Rightarrow> string \<Rightarrow> string option" where
  "strip_prefix [] s = Some s"
| "strip_prefix (p # ps) [] = None"
| "strip_prefix (p # ps) (c # cs) = (if p = c then strip_prefix ps cs else None)"

section \<open>The ChatContainer component\<close>

record Message =
  role :: string
  content :: string




section \<open>The App component\<close>

record Conversation =
  conv_id :: string
  title :: string
  conv_messages :: "Message list"
  createdAt :: string

record ChatSettings =
  openai_api_key :: string
  openai_api_base_url :: string
  openai_api_model :: string
  history_path :: string

text \<open>
  A call of \<open>sendMessage\<close> that awaits the backend's answer: the text it sent and the
  \<open>currentConversationId\<close> its closure holds.
\<close>

record pending_send =
  sent_text :: string
  closure_conversation :: string

text \<open>
  The state of \<open>App\<close>: its \<open>useState\<close> cells (\<open>app_input\<close> is the cell \<open>input\<close>), the two
  \<open>localStorage\<close> items it writes (\<open>aiAgentSettings\<close>, \<open>aiAgentConversations\<close>; \<open>None\<close> when
  the item is absent), and the calls of \<open>sendMessage\<close> suspended at their \<open>await\<close>.
\<close>

record App =
  messages :: "Message list"
  app_input :: string
  isInitialized :: bool
  showSettings :: bool
  showHistory :: bool
  conversations :: "Conversation list"
  currentConversationId :: string
  settings :: ChatSettings
  stored_settings :: "ChatSettings option"
  stored_conversations :: "Conversation list option"
  in_flight :: "pending_send list"

text \<open>
  \<open>createNewConversation\<close>: \<open>newId\<close> is the value of \<open>uuidv4()\<close>, \<open>localTime\<close> that of
  \<open>new Date().toLocaleString()\<close> and \<open>isoTime\<close> that of \<open>new Date().toISOString()\<close>.
\<close>

definition createNewConversation :: "App \<Rightarrow> string \<Rightarrow> string \<Rightarrow> string \<Rightarrow> App" where
  "createNewConversation s newId localTime isoTime =
     (let newConversation =
            \<lparr>conv_id = newId, title = ''New Chat ('' @ localTime @ '')'',
             conv_messages = [], createdAt = isoTime\<rparr>;
          updated = conversations s @ [newConversation]
      in s\<lparr>conversations := updated, stored_conversations := Some updated,
           currentConversationId := newId, messages := []\<rparr>)"

text \<open>
  \<open>loadConversation\<close> searches the \<open>conversations\<close> of the render its closure belongs to;
  \<open>loadConversation_in\<close> takes that list as an argument, since \<open>deleteConversation\<close> calls
  it after it has already replaced the state's list.
\<close>

definition loadConversation_in :: "Conversation list \<Rightarrow> App \<Rightarrow> string \<Rightarrow> App" where
  "loadConversation_in convs s i =
     (case List.find (\<lambda>conv. conv_id conv = i) convs of
        None \<Rightarrow> s
      | Some conversation \<Rightarrow>
          s\<lparr>messages := conv_messages conversation, currentConversationId := i,
            showHistory := False\<rparr>)"

definition loadConversation :: "App \<Rightarrow> string \<Rightarrow> App" where
  "loadConversation s i = loadConversation_in (conversations s) s i"

text \<open>
  \<open>deleteConversation\<close>; the last three arguments are what \<open>createNewConversation\<close> reads
  from \<open>uuidv4\<close> and the clock when the deleted conversation was the only one.
\<close>

definition deleteConversation :: "App \<Rightarrow> string \<Rightarrow> string \<Rightarrow> string \<Rightarrow> string \<Rightarrow> App" where
  "deleteConversation s i newId localTime isoTime =
     (let updatedConversations = filter (\<lambda>conv. conv_id conv \<noteq> i) (conversations s);
          s1 = s\<lparr>conversations := updatedConversations,
                 stored_conversations := Some updatedConversations\<rparr>
      in if currentConversationId s = i
         then (case updatedConversations of
                 [] \<Rightarrow> createNewConversation s1 newId localTime isoTime
               | first # _ \<Rightarrow> loadConversation_in (conversations s) s1 (conv_id first))
         else s1)"

text \<open>The sidebar lists \<open>conversations\<close> in the order of the state's array.\<close>

definition listConversations :: "App \<Rightarrow> Conversation list" where
  "listConversations s = conversations s"











text \<open>The initial state of \<open>App\<close>: the initial values of its \<open>useState\<close> cells.\<close>

definition App_initial :: App where
  "App_initial =
     \<lparr>messages = [], app_input = '''', isInitialized = False, showSettings = False,
      showHistory = False, conversations = [], currentConversationId = '''',
      settings = \<lparr>openai_api_key = '''',
                  openai_api_base_url = ''https://api.groq.com/openai/v1'',
                  openai_api_model = ''llama3-70b-8192'',
                  history_path = ''~/.ai-agent/history''\<rparr>,
      stored_settings = None, stored_conversations = None, in_flight = []\<rparr>"



section \<open>The ChatMessage component: processContent\<close>

text \<open>
  \<open>processContent\<close> splits the content at the matches of the regular expression
  \<open>/(FENCE[\w-]*\n[\s\S]*?\nFENCE)/g\<close>, where \<open>FENCE\<close> stands for three backquotes
  (character \<open>0x60\<close>), and renders each part.

  \<open>match_at s\<close> matches the expression at the start of \<open>s\<close> and returns the language tag,
  the code body and the rest of \<open>s\<close> after the match. The greedy \<open>[\w-]*\<close> never gives a
  character back, since the line feed that must follow is not in its class; the lazy
  \<open>[\s\S]*?\<close> stops at the first line feed that three backquotes follow
  (\<open>find_closing\<close>).
\<close>

definition fence :: string where
  "fence = [CHR 0x60, CHR 0x60, CHR 0x60]"

definition is_word_or_dash :: "char \<Rightarrow> bool" where
  "is_word_or_dash c =
     (let n = (of_char c :: nat)
      in (65 \<le> n \<and> n \<le> 90) \<or> (97 \<le> n \<and> n \<le> 122) \<or> (48 \<le> n \<and> n \<le> 57)
         \<or> c = CHR ''_'' \<or> c = CHR ''-'')"

fun find_closing :: "string \<Rightarrow> (string \<times> string) option" where
  "find_closing [] = None"
| "find_closing (c # cs) =
     (case strip_prefix (CHR 0x0A # fence) (c # cs) of
        Some rest \<Rightarrow> Some ([], rest)
      | None \<Rightarrow> (case find_closing cs of
                   None \<Rightarrow> None
                 | Some (code, rest) \<Rightarrow> Some (c # code, rest)))"

definition match_at :: "string \<Rightarrow> (string \<times> string \<times> string) option" where
  "match_at s =
     (case strip_prefix fence s of
        None \<Rightarrow> None
      | Some r1 \<Rightarrow>
          (case dropWhile is_word_or_dash r1 of
             [] \<Rightarrow> None
           | c # r3 \<Rightarrow>
               if c = CHR 0x0A
               then (case find_closing r3 of
                       None \<Rightarrow> None
                     | Some (code, rest) \<Rightarrow> Some (takeWhile is_word_or_dash r1, code, rest))
               else None))"

text \<open>
  \<open>String.prototype.split\<close> with this expression: the matcher is tried at each position
  \<open>q\<close> from the end \<open>p\<close> of the last match; \<open>cur\<close> is the substring from \<open>p\<close> to \<open>q\<close>. At a
  match the part before it and the capture group (the matched text) are emitted, and the
  scan goes on after the match (a match is never empty). The rest of the string is the last
  part.
\<close>

function js_split_fences :: "string \<Rightarrow> string \<Rightarrow> string list" where
  "js_split_fences cur [] = [cur]"
| "js_split_fences cur (c # cs) =
     (case match_at (c # cs) of
        None \<Rightarrow> js_split_fences (cur @ [c]) cs
      | Some (language, code, rest) \<Rightarrow>
          cur # take (length (c # cs) - length rest) (c # cs) # js_split_fences [] rest)"
  by pat_completeness auto
termination
proof (relation "measure (\<lambda>(cur, s). length s)")
  show "wf (measure (\<lambda>(cur, s). length s))"
    by simp
next
  fix cur :: string and c cs
  show "((cur @ [c], cs), cur, c # cs) \<in> measure (\<lambda>(cur, s). length s)"
    by simp
next
  fix cur :: string and c cs x2 language y code rest
  assume m: "match_at (c # cs) = Some x2" and x2: "(language, y) = x2" and y: "(code, rest) = y"
  have sp: "strip_prefix p s = Some r \<Longrightarrow> length r \<le> length s" for p s r
    by (induction p s rule: strip_prefix.induct) (auto split: if_splits)
  have fc: "find_closing s = Some (d, r) \<Longrightarrow> length r \<le> length s" for s d r
  proof (induction s arbitrary: d r)
    case Nil
    then show ?case by simp
  next
    case (Cons a s)
    then show ?case
      by (fastforce split: option.splits if_splits dest: sp)
  qed
  from m x2 y have "match_at (c # cs) = Some (language, code, rest)"
    by simp
  then obtain r1 r3 where a: "strip_prefix fence (c # cs) = Some r1"
    and b: "dropWhile is_word_or_dash r1 = CHR 0x0A # r3" and d: "find_closing r3 = Some (code, rest)"
    by (auto simp: match_at_def split: option.splits list.splits if_splits)
  have "length r1 < length (c # cs)"
    using a by (auto simp: fence_def split: if_splits list.splits dest!: sp)
  moreover have "length r3 < length r1"
    using length_dropWhile_le [of is_word_or_dash r1] b by simp
  moreover have "length rest \<le> length r3"
    using d by (rule fc)
  ultimately show "(([], rest), cur, c # cs) \<in> measure (\<lambda>(cur, s). length s)"
    by simp
qed

text \<open>
  \<open>part.match(...)\<close> with the same expression without the \<open>g\<close> flag: the leftmost match
  in \<open>part\<close>, of which the two capture groups (language, code) are used.
\<close>

fun code_match :: "string \<Rightarrow> (string \<times> string) option" where
  "code_match [] = None"
| "code_match (c # cs) =
     (case match_at (c # cs) of
        Some (language, code, rest) \<Rightarrow> Some (language, code)
      | None \<Rightarrow> code_match cs)"

text \<open>
  What a part is rendered to: a \<open>pre\<close> block with the optional language label, the class of
  the \<open>code\<close> element and its text; or one paragraph per line; or \<open>null\<close>. React keys and the
  refs collected for highlighting are left out.
\<close>

datatype rendered = CodeBlock "string option" string string | Paragraphs "string list" | Null

definition render_part :: "string \<Rightarrow> rendered" where
  "render_part part =
     (case code_match part of
        Some (language, code) \<Rightarrow>
          CodeBlock (if js_truthy language then Some language else None)
            (''language-'' @ (if js_truthy language then language else ''plaintext'')) code
      | None \<Rightarrow>
          if js_truthy (js_trim part) then Paragraphs (js_split_char CHR 0x0A part) else Null)"

definition split_code_blocks :: "string \<Rightarrow> string list" where
  "split_code_blocks contents = js_split_fences [] contents"

definition processContent :: "string \<Rightarrow> rendered list" where
  "processContent contents = map render_part (split_code_blocks contents)"

text \<open>A message with one fenced block between two pieces of text.\<close>

definition sample_content :: string where
  "sample_content = ''ab'' @ fence @ ''js'' @ [CHR 0x0A] @ ''x=1'' @ [CHR 0x0A] @ fence @ ''cd''"

section \<open>The Agent Orchestrator\<close>

text \<open>
  The orchestrator behind the command \<open>send_message\<close> (the History Store, the Completion
  Client and the turn state machine) is not among the sources: only its caller \<open>App\<close> is.
  The definitions of this section are modelled from the specification.
\<close>

text \<open>Modelled from the spec: the role of a Message, \<open>enum{user, assistant, tool}\<close> (data model).\<close>

datatype Role = User | Assistant | Tool

text \<open>
  Modelled from the spec: \<open>PendingToolCall: {call_id, tool_name, arguments}\<close>, created when
  the Completion Client returns a tool-call request.
\<close>

record PendingToolCall =
  call_id :: nat
  tool_name :: string
  arguments :: string

text \<open>
  Modelled from the spec: \<open>Message: {role, content, optional tool_call metadata}\<close>. The
  code of the backend's Message is missing.
\<close>

record OMessage =
  msg_role :: Role
  msg_content :: string
  tool_call :: "PendingToolCall option"

text \<open>
  Modelled from the spec: what the state machine appends to the conversation's sequence,
  a Message or a tool-call record ("append a tool-call record (not yet a resolved
  Message)").
\<close>

datatype entry = Msg OMessage | ToolCallRecord PendingToolCall

text \<open>
  Modelled from the spec: \<open>CompletionResult\<close>, the tagged union of \<open>FinalAnswer(text)\<close> and
  \<open>ToolCallRequest(call_id, tool_name, arguments)\<close>, and the failures of the Completion
  Client, of a tool call and of the History Store.
\<close>

datatype CompletionResult = FinalAnswer string | ToolCallRequest PendingToolCall

datatype CompletionError = AuthError | NetworkError | MalformedResponse

datatype ToolError = Timeout | ProcessExited | ProtocolError

datatype StoreError = NotFound | IOFailure

datatype TurnError = Busy | CompletionFailed CompletionError | StoreFailed StoreError

text \<open>
  Modelled from the spec: the History Store, one record per conversation identifier.
  \<open>write_log\<close> lists the invocations of \<open>append\<close> in order; it is there to count them.
\<close>

record HistoryStore =
  records :: "nat \<Rightarrow> entry list option"
  write_log :: "(nat \<times> entry list) list"

text \<open>
  Modelled from the spec: \<open>append(id, messages)\<close> replaces the stored sequence of \<open>id\<close> by
  the given one; it fails with \<open>NotFound\<close> for an unknown \<open>id\<close> and with \<open>IOFailure\<close> when
  the underlying write cannot complete (\<open>write_ok\<close> is false), and a failed write is not
  visible to later reads.
\<close>

definition hs_append ::
  "bool \<Rightarrow> HistoryStore \<Rightarrow> nat \<Rightarrow> entry list \<Rightarrow> (StoreError + unit) \<times> HistoryStore" where
  "hs_append write_ok st i msgs =
     (let st' = st\<lparr>write_log := write_log st @ [(i, msgs)]\<rparr>
      in if records st i = None then (Inl NotFound, st')
         else if \<not> write_ok then (Inl IOFailure, st')
         else (Inr (), st'\<lparr>records := (records st)(i \<mapsto> msgs)\<rparr>))"

text \<open>
  Modelled from the spec: what a session depends on. \<open>complete\<close> is the Completion Client
  (one call per invocation, given the full history), \<open>call_tool\<close> the Tool Process Manager's
  \<open>call\<close>, \<open>max_tool_depth\<close> the maximum tool-call depth per turn (the specification leaves
  its value open) and \<open>store_write_ok\<close> whether the store's writes can complete.
\<close>

record Env =
  complete :: "entry list \<Rightarrow> CompletionError + CompletionResult"
  call_tool :: "PendingToolCall \<Rightarrow> ToolError + string"
  max_tool_depth :: nat
  store_write_ok :: bool

text \<open>
  Modelled from the spec: the states \<open>Idle\<close>, \<open>AwaitingCompletion\<close> and \<open>ResolvingTool\<close> of the
  orchestrator's state machine.
\<close>

datatype Phase = Idle | AwaitingCompletion | ResolvingTool PendingToolCall

text \<open>
  Modelled from the spec: the orchestrator of one session. \<open>history\<close> is the active
  conversation's in-memory sequence, \<open>depth\<close> the number of tool calls of the turn so far,
  \<open>failure\<close> the error the turn ended with, if any. \<open>completion_calls\<close> counts the
  invocations of the Completion Client; it is there to state the bound.
\<close>

record Orchestrator =
  phase :: Phase
  history :: "entry list"
  depth :: nat
  active_id :: nat
  store :: HistoryStore
  failure :: "TurnError option"
  completion_calls :: nat

text \<open>
  Modelled from the spec: the content of the "synthesized assistant Message explaining the
  limit was reached", and of the "tool-error Message describing the failure". The
  specification does not give their wording.
\<close>

definition limit_notice :: string where
  "limit_notice = ''The tool-call limit for this turn was reached.''"

fun describe_tool_error :: "ToolError \<Rightarrow> string" where
  "describe_tool_error Timeout = ''Tool call failed: Timeout''"
| "describe_tool_error ProcessExited = ''Tool call failed: ProcessExited''"
| "describe_tool_error ProtocolError = ''Tool call failed: ProtocolError''"

text \<open>
  Modelled from the spec: the end of a completed turn. The conversation is persisted with
  the full-replace \<open>append\<close> and the machine returns to \<open>Idle\<close>; an error of the store is
  surfaced and the in-memory sequence is kept.
\<close>

definition finish_turn :: "Env \<Rightarrow> Orchestrator \<Rightarrow> Orchestrator" where
  "finish_turn env s =
     (case hs_append (store_write_ok env) (store s) (active_id s) (history s) of
        (Inl e, st) \<Rightarrow> s\<lparr>store := st, phase := Idle, failure := Some (StoreFailed e)\<rparr>
      | (Inr u, st) \<Rightarrow> s\<lparr>store := st, phase := Idle\<rparr>)"

text \<open>
  Modelled from the spec: one transition of the state machine. In \<open>AwaitingCompletion\<close> a
  \<open>FinalAnswer\<close> appends an assistant Message and ends the turn; a \<open>ToolCallRequest\<close> within
  the bound appends a tool-call record and goes to \<open>ResolvingTool\<close>, and one beyond the
  bound ends the turn with the synthesized assistant Message; a failure of the Completion
  Client is the error exit to \<open>Idle\<close>, with the error returned to the caller (the retries
  the specification allows and its explanatory Messages are not modelled). In \<open>ResolvingTool\<close> the result of the tool, or the description of its failure,
  is appended as a tool Message and the machine goes back to \<open>AwaitingCompletion\<close>.
\<close>

definition orch_step :: "Env \<Rightarrow> Orchestrator \<Rightarrow> Orchestrator" where
  "orch_step env s =
     (case phase s of
        Idle \<Rightarrow> s
      | AwaitingCompletion \<Rightarrow>
          (let s1 = s\<lparr>completion_calls := completion_calls s + 1\<rparr>
           in case complete env (history s) of
                Inl e \<Rightarrow> s1\<lparr>phase := Idle, failure := Some (CompletionFailed e)\<rparr>
              | Inr (FinalAnswer t) \<Rightarrow>
                  finish_turn env
                    (s1\<lparr>history := history s @
                          [Msg \<lparr>msg_role = Assistant, msg_content = t, tool_call = None\<rparr>]\<rparr>)
              | Inr (ToolCallRequest c) \<Rightarrow>
                  if depth s < max_tool_depth env
                  then s1\<lparr>history := history s @ [ToolCallRecord c], depth := depth s + 1,
                          phase := ResolvingTool c\<rparr>
                  else finish_turn env
                         (s1\<lparr>history := history s @
                               [Msg \<lparr>msg_role = Assistant, msg_content = limit_notice,
                                     tool_call = None\<rparr>]\<rparr>))
      | ResolvingTool c \<Rightarrow>
          (case call_tool env c of
             Inr v \<Rightarrow>
               s\<lparr>history := history s @
                     [Msg \<lparr>msg_role = Tool, msg_content = v, tool_call = Some c\<rparr>],
                 phase := AwaitingCompletion\<rparr>
           | Inl e \<Rightarrow>
               s\<lparr>history := history s @
                     [Msg \<lparr>msg_role = Tool, msg_content = describe_tool_error e,
                           tool_call = Some c\<rparr>],
                 phase := AwaitingCompletion\<rparr>))"

text \<open>The measure that decreases at every transition from a state other than \<open>Idle\<close>.\<close>

definition turn_measure :: "Env \<times> Orchestrator \<Rightarrow> nat" where
  "turn_measure = (\<lambda>(env, s).
     case phase s of
       Idle \<Rightarrow> 0
     | AwaitingCompletion \<Rightarrow> 2 * (max_tool_depth env - depth s) + 1
     | ResolvingTool c \<Rightarrow> 2 * (max_tool_depth env - depth s) + 2)"

text \<open>
  Modelled from the spec: the tool-call resolution loop, the transitions of a turn up to
  \<open>Idle\<close>.
\<close>

function run_turn :: "Env \<Rightarrow> Orchestrator \<Rightarrow> Orchestrator" where
  "run_turn env s = (if phase s = Idle then s else run_turn env (orch_step env s))"
  by pat_completeness auto
termination
proof (relation "measure turn_measure")
  show "wf (measure turn_measure)"
    by simp
next
  fix env :: Env and s :: Orchestrator
  assume "phase s \<noteq> Idle"
  then show "((env, orch_step env s), env, s) \<in> measure turn_measure"
    by (cases "phase s")
      (auto simp: turn_measure_def orch_step_def finish_turn_def hs_append_def Let_def
        split: sum.splits CompletionResult.splits)
qed

declare run_turn.simps [simp del]

text \<open>
  Modelled from the spec: \<open>sendMessage(text)\<close>. A call while a turn is in flight is rejected
  with \<open>Busy\<close>; otherwise the user Message is appended, the turn runs, and the full message
  sequence is returned, or the error the turn ended with.
\<close>

definition orch_sendMessage ::
  "Env \<Rightarrow> Orchestrator \<Rightarrow> string \<Rightarrow> (TurnError + entry list) \<times> Orchestrator" where
  "orch_sendMessage env s t =
     (if phase s \<noteq> Idle then (Inl Busy, s)
      else (let s1 = run_turn env
                  (s\<lparr>history := history s @
                        [Msg \<lparr>msg_role = User, msg_content = t, tool_call = None\<rparr>],
                     phase := AwaitingCompletion, depth := 0, failure := None\<rparr>)
            in (case failure s1 of None \<Rightarrow> Inr (history s1) | Some e \<Rightarrow> Inl e, s1)))"

text \<open>
  Modelled from the spec: the state in which \<open>sendMessage(text)\<close> starts the turn, and the
  answers the Completion Client gives in a turn, in order (one per visit of
  \<open>AwaitingCompletion\<close>); \<open>sendMessage_answers\<close> are those of the turn that \<open>sendMessage\<close> runs.
\<close>

definition turn_start :: "Orchestrator \<Rightarrow> string \<Rightarrow> Orchestrator" where
  "turn_start s t =
     s\<lparr>history := history s @ [Msg \<lparr>msg_role = User, msg_content = t, tool_call = None\<rparr>],
       phase := AwaitingCompletion, depth := 0, failure := None\<rparr>"

function turn_answers :: "Env \<Rightarrow> Orchestrator \<Rightarrow> (CompletionError + CompletionResult) list" where
  "turn_answers env s =
     (if phase s = Idle then []
      else (if phase s = AwaitingCompletion then [complete env (history s)] else [])
           @ turn_answers env (orch_step env s))"
  by pat_completeness auto
termination
proof (relation "measure turn_measure")
  show "wf (measure turn_measure)"
    by simp
next
  fix env :: Env and s :: Orchestrator
  assume "phase s \<noteq> Idle"
  then show "((env, orch_step env s), env, s) \<in> measure turn_measure"
    by (cases "phase s")
      (auto simp: turn_measure_def orch_step_def finish_turn_def hs_append_def Let_def
        split: sum.splits CompletionResult.splits)
qed

declare turn_answers.simps [simp del]

fun is_tool_request :: "CompletionError + CompletionResult \<Rightarrow> bool" where
  "is_tool_request (Inr (ToolCallRequest c)) = True"
| "is_tool_request (Inr (FinalAnswer t)) = False"
| "is_tool_request (Inl e) = False"

definition sendMessage_answers ::
  "Env \<Rightarrow> Orchestrator \<Rightarrow> string \<Rightarrow> (CompletionError + CompletionResult) list" where
  "sendMessage_answers env s t = turn_answers env (turn_start s t)"

text \<open>Modelled from the spec: \<open>getConversationHistory()\<close>, the active conversation's sequence.\<close>

definition getConversationHistory :: "Orchestrator \<Rightarrow> entry list" where
  "getConversationHistory s = history s"

text \<open>
  Modelled from the spec: a sequence of turns, each one completed (its \<open>sendMessage\<close>
  returned a sequence); the result lists the state after each turn.
\<close>

fun orch_turns :: "Env \<Rightarrow> Orchestrator \<Rightarrow> string list \<Rightarrow> Orchestrator list option" where
  "orch_turns env s [] = Some []"
| "orch_turns env s (t # ts) =
     (case orch_sendMessage env s t of
        (Inl e, s') \<Rightarrow> None
      | (Inr msgs, s') \<Rightarrow>
          (case orch_turns env s' ts of
             None \<Rightarrow> None
           | Some ss \<Rightarrow> Some (s' # ss)))"

text \<open>Assistant Messages, and the entries of a tool exchange.\<close>

fun is_assistant :: "entry \<Rightarrow> bool" where
  "is_assistant (Msg m) = (msg_role m = Assistant)"
| "is_assistant (ToolCallRecord c) = False"

fun is_tool :: "entry \<Rightarrow> bool" where
  "is_tool (Msg m) = (msg_role m = Tool)"
| "is_tool (ToolCallRecord c) = True"

text \<open>
  A sequence has no half-finished tool exchange: every tool-call record is followed at
  once by the tool Message that carries the same call.
\<close>

fun resolved :: "entry list \<Rightarrow> bool" where
  "resolved [] = True"
| "resolved (ToolCallRecord c # Msg m # es) =
     (msg_role m = Tool \<and> tool_call m = Some c \<and> resolved es)"
| "resolved (ToolCallRecord c # es) = False"
| "resolved (Msg m # es) = resolved es"

text \<open>
  The invariant of the loop: while a tool call is being resolved its record is the last
  entry and the sequence before it is resolved; in the other states the sequence is.
\<close>

definition well_formed :: "Orchestrator \<Rightarrow> bool" where
  "well_formed s =
     (case phase s of
        ResolvingTool c \<Rightarrow>
          history s \<noteq> [] \<and> last (history s) = ToolCallRecord c \<and> resolved (butlast (history s))
      | _ \<Rightarrow> resolved (history s))"

text \<open>
  Sessions for the examples: a Completion Client that requests a tool call on every
  history but the empty one (which no turn shows it), one that requests one tool call per
  user message, and a fresh orchestrator whose conversation \<open>0\<close> exists and is empty.
\<close>

definition docs_call :: "nat \<Rightarrow> PendingToolCall" where
  "docs_call n = \<lparr>call_id = n, tool_name = ''docs'', arguments = ''query''\<rparr>"

definition env_tool_in_turn :: Env where
  "env_tool_in_turn =
     \<lparr>complete = (\<lambda>h. if h = [] then Inr (FinalAnswer ''idle'')
                       else Inr (ToolCallRequest (docs_call (length h)))),
      call_tool = (\<lambda>c. Inr ''result''),
      max_tool_depth = 2, store_write_ok = True\<rparr>"

definition env_one_tool :: Env where
  "env_one_tool =
     \<lparr>complete = (\<lambda>h. case rev h of
                         Msg m # _ \<Rightarrow>
                           if msg_role m = User then Inr (ToolCallRequest (docs_call (length h)))
                           else Inr (FinalAnswer ''done'')
                       | _ \<Rightarrow> Inr (FinalAnswer ''done'')),
      call_tool = (\<lambda>c. Inl Timeout),
      max_tool_depth = 5, store_write_ok = True\<rparr>"

definition orch_initial :: Orchestrator where
  "orch_initial =
     \<lparr>phase = Idle, history = [], depth = 0, active_id = 0,
      store = \<lparr>records = [0 \<mapsto> []], write_log = []\<rparr>,
      failure = None, completion_calls = 0\<rparr>"

section \<open>The Tool Process Manager\<close>

text \<open>
  The Tool Process Manager is not among the sources either. The definitions of this section
  are modelled from the specification: the correlation of requests and responses by
  identifier, without the child process, its streams and the timeouts.
\<close>







section \<open>Properties of UserInput\<close>

lemma js_trim_empty_iff: "js_trim s = [] \<longleftrightarrow> (\<forall>c\<in>set s. js_whitespace c)"
proof
  assume e: "js_trim s = []"
  show "\<forall>c\<in>set s. js_whitespace c"
  proof (cases "dropWhile js_whitespace s")
    case Nil
    then show ?thesis by (simp add: dropWhile_eq_Nil_conv)
  next
    case (Cons x xs)
    then have nw: "\<not> js_whitespace x"
      using hd_dropWhile [of js_whitespace s] by simp
    from e have "\<forall>c\<in>set (dropWhile js_whitespace s). js_whitespace c"
      by (simp add: js_trim_def dropWhile_eq_Nil_conv)
    with Cons nw show ?thesis by simp
  qed
next
  assume "\<forall>c\<in>set s. js_whitespace c"
  then have "dropWhile js_whitespace s = []"
    by (simp add: dropWhile_eq_Nil_conv)
  then show "js_trim s = []"
      by (auto simp: js_trim_def dropWhile_eq_Nil_conv dest: set_dropWhileD)
qed

text \<open>
  C10. \<open>onSendMessage\<close> is called only when the trimmed input is not empty (the input holds
  a character that is not white space) and the component is not disabled; it is then called once,
  with the input as typed (untrimmed), and the input is reset to the empty string; in every
  other case nothing is called and the state is kept. Enter without Shift runs this same
  send path (after \<open>preventDefault\<close>); any other key does nothing.
\<close>

theorem UserInput_sendMessage_guarded:
  "(fst (UserInput_sendMessage u) \<noteq> [] \<longleftrightarrow> js_trim (input u) \<noteq> [] \<and> \<not> disabled u)
   \<and> (js_trim (input u) \<noteq> [] \<longleftrightarrow> (\<exists>c\<in>set (input u). \<not> js_whitespace c))
   \<and> (fst (UserInput_sendMessage u) \<noteq> [] \<longrightarrow>
        fst (UserInput_sendMessage u) = [input u]
        \<and> snd (UserInput_sendMessage u) = u\<lparr>input := ''''\<rparr>)
   \<and> (fst (UserInput_sendMessage u) = [] \<longrightarrow> snd (UserInput_sendMessage u) = u)
   \<and> (key e = ''Enter'' \<and> \<not> shiftKey e \<longrightarrow>
        handleKeyDown u e = (True, UserInput_sendMessage u))
   \<and> (\<not> (key e = ''Enter'' \<and> \<not> shiftKey e) \<longrightarrow> handleKeyDown u e = (False, [], u))"
  using js_trim_empty_iff [of "input u"]
  by (auto simp: UserInput_sendMessage_def handleKeyDown_def js_truthy_def)

theorem UserInput_sendMessage_guarded_witness:
  "fst (UserInput_sendMessage \<lparr>input = '' hi '', placeholder = ''p'', disabled = False\<rparr>) = ['' hi '']
   \<and> input (snd (UserInput_sendMessage \<lparr>input = '' hi '', placeholder = ''p'', disabled = False\<rparr>)) = ''''
   \<and> handleKeyDown \<lparr>input = '' hi '', placeholder = ''p'', disabled = False\<rparr>
        \<lparr>key = ''Enter'', shiftKey = False\<rparr>
      = (True, UserInput_sendMessage \<lparr>input = '' hi '', placeholder = ''p'', disabled = False\<rparr>)"
proof -
  let ?u = "\<lparr>input = '' hi '', placeholder = ''p'', disabled = False\<rparr>"
  let ?e = "\<lparr>key = ''Enter'', shiftKey = False\<rparr>"
  have h1: "js_trim (input ?u) \<noteq> [] \<and> \<not> disabled ?u"
    by (simp add: js_trim_def js_whitespace_def)
  have h2: "key ?e = ''Enter'' \<and> \<not> shiftKey ?e"
    by simp
  from UserInput_sendMessage_guarded [of ?u ?e] h1
  have ne: "fst (UserInput_sendMessage ?u) \<noteq> []"
    by blast
  with UserInput_sendMessage_guarded [of ?u ?e]
  have "fst (UserInput_sendMessage ?u) = [input ?u]"
    and "snd (UserInput_sendMessage ?u) = ?u\<lparr>input := ''''\<rparr>"
    by blast+
  moreover from UserInput_sendMessage_guarded [of ?u ?e] h2
  have "handleKeyDown ?u ?e = (True, UserInput_sendMessage ?u)"
    by blast
  ultimately show ?thesis
    by simp
qed

section \<open>Properties of App\<close>

lemma deleteConversation_conversations:
  "conversations s \<noteq> [] \<Longrightarrow> filter (\<lambda>conv. conv_id conv \<noteq> i) (conversations s) \<noteq> [] \<or> currentConversationId s \<noteq> i \<Longrightarrow>
   conversations (deleteConversation s i n t isoT) = filter (\<lambda>conv. conv_id conv \<noteq> i) (conversations s)"
  by (auto simp: deleteConversation_def loadConversation_in_def Let_def split: list.splits option.splits)

lemma loadConversation_conversations: "conversations (loadConversation s x) = conversations s"
  by (simp add: loadConversation_def loadConversation_in_def split: option.splits)

text \<open>
  C8. After three conversations with identifiers \<open>a\<close>, \<open>b\<close>, \<open>c\<close> were created and the
  middle one deleted, the list of conversations is the list from before followed by
  exactly the first and the third, in creation order. The identifiers come from \<open>uuidv4\<close>:
  \<open>b\<close> is assumed to differ from \<open>a\<close>, from \<open>c\<close> and from the identifiers already listed.
  Any conversation \<open>x\<close> may have been selected before the deletion, the deleted one
  included.
\<close>

theorem listConversations_after_delete_middle:
  assumes "a \<noteq> b" and "c \<noteq> b"
    and "\<forall>conv\<in>set (conversations s0). conv_id conv \<noteq> b"
  shows "listConversations
           (deleteConversation
              (loadConversation
                (createNewConversation
                   (createNewConversation
                      (createNewConversation s0 a ta ia) b tb ib) c tc ic) x)
              b n tn isn)
         = conversations s0 @
           [\<lparr>conv_id = a, title = ''New Chat ('' @ ta @ '')'', conv_messages = [], createdAt = ia\<rparr>,
            \<lparr>conv_id = c, title = ''New Chat ('' @ tc @ '')'', conv_messages = [], createdAt = ic\<rparr>]"
proof -
  let ?s3 = "createNewConversation
                   (createNewConversation
                      (createNewConversation s0 a ta ia) b tb ib) c tc ic"
  have cs: "conversations (loadConversation ?s3 x) = conversations s0 @
     [\<lparr>conv_id = a, title = ''New Chat ('' @ ta @ '')'', conv_messages = [], createdAt = ia\<rparr>,
      \<lparr>conv_id = b, title = ''New Chat ('' @ tb @ '')'', conv_messages = [], createdAt = ib\<rparr>,
      \<lparr>conv_id = c, title = ''New Chat ('' @ tc @ '')'', conv_messages = [], createdAt = ic\<rparr>]"
    by (simp add: loadConversation_conversations createNewConversation_def Let_def)
  have "conversations (deleteConversation (loadConversation ?s3 x) b n tn isn)
        = filter (\<lambda>conv. conv_id conv \<noteq> b) (conversations (loadConversation ?s3 x))"
    by (rule deleteConversation_conversations) (use assms cs in auto)
  with assms cs show ?thesis
    by (simp add: listConversations_def)
qed

theorem listConversations_after_delete_middle_witness:
  "listConversations
     (deleteConversation
        (loadConversation
          (createNewConversation
             (createNewConversation
                (createNewConversation App_initial ''id1'' ''t1'' ''i1'') ''id2'' ''t2'' ''i2'')
             ''id3'' ''t3'' ''i3'') ''id2'')
        ''id2'' ''id4'' ''t4'' ''i4'')
   = [\<lparr>conv_id = ''id1'', title = ''New Chat (t1)'', conv_messages = [], createdAt = ''i1''\<rparr>,
      \<lparr>conv_id = ''id3'', title = ''New Chat (t3)'', conv_messages = [], createdAt = ''i3''\<rparr>]"
  using listConversations_after_delete_middle
    [of "''id1''" "''id2''" "''id3''" App_initial "''t1''" "''i1''" "''t2''" "''i2''" "''t3''" "''i3''"
        "''id2''" "''id4''" "''t4''" "''i4''"]
  by (simp add: App_initial_def)








section \<open>Properties of processContent\<close>

lemma strip_prefix_Some_iff: "strip_prefix p s = Some r \<longleftrightarrow> s = p @ r"
  by (induction p s rule: strip_prefix.induct) auto

lemma strip_prefix_None_extend:
  "strip_prefix p s = None \<Longrightarrow> length p \<le> length s \<Longrightarrow> strip_prefix p (s @ v) = None"
  by (induction p s rule: strip_prefix.induct) (auto split: if_splits)

lemma find_closing_Some:
  "find_closing s = Some (code, rest) \<Longrightarrow> s = code @ CHR 0x0A # fence @ rest"
proof (induction s arbitrary: code)
  case Nil
  then show ?case by simp
next
  case (Cons a s)
  show ?case
  proof (cases "strip_prefix (CHR 0x0A # fence) (a # s)")
    case (Some r)
    with Cons.prems have "code = []" and "rest = r"
      by simp_all
    moreover from Some have "a # s = (CHR 0x0A # fence) @ r"
      by (simp only: strip_prefix_Some_iff)
    ultimately show ?thesis
      by simp
  next
    case None
    with Cons.prems obtain code' where "find_closing s = Some (code', rest)" and "code = a # code'"
      by (auto split: option.splits)
    with Cons.IH show ?thesis
      by simp
  qed
qed

lemma find_closing_truncate:
  "find_closing s = Some (code, rest) \<Longrightarrow> find_closing (code @ CHR 0x0A # fence) = Some (code, [])"
proof (induction s arbitrary: code)
  case Nil
  then show ?case by simp
next
  case (Cons a s)
  show ?case
  proof (cases "strip_prefix (CHR 0x0A # fence) (a # s)")
    case (Some r)
    with Cons.prems have "code = []"
      by simp
    then show ?thesis
      by (simp add: fence_def)
  next
    case None
    with Cons.prems obtain code' where f: "find_closing s = Some (code', rest)" and c: "code = a # code'"
      by (auto split: option.splits)
    from f have s: "s = code' @ CHR 0x0A # fence @ rest"
      by (rule find_closing_Some)
    have "strip_prefix (CHR 0x0A # fence) (a # code' @ CHR 0x0A # fence) = None"
    proof (cases "strip_prefix (CHR 0x0A # fence) (a # code' @ CHR 0x0A # fence)")
      case (Some x)
      then have "a # code' @ CHR 0x0A # fence = (CHR 0x0A # fence) @ x"
        by (simp only: strip_prefix_Some_iff)
      then have "a # s = (CHR 0x0A # fence) @ (x @ rest)"
        using s by simp
      then have "strip_prefix (CHR 0x0A # fence) (a # s) = Some (x @ rest)"
        by (simp only: strip_prefix_Some_iff)
      with None show ?thesis by simp
    qed simp
    with Cons.IH [OF f] c show ?thesis
      by simp
  qed
qed

lemma find_closing_extend:
  "find_closing s = Some (code, rest) \<Longrightarrow> find_closing (s @ v) = Some (code, rest @ v)"
proof (induction s arbitrary: code)
  case Nil
  then show ?case by simp
next
  case (Cons a s)
  show ?case
  proof (cases "strip_prefix (CHR 0x0A # fence) (a # s)")
    case (Some r)
    with Cons.prems have "code = []" and "rest = r"
      by simp_all
    moreover from Some have "strip_prefix (CHR 0x0A # fence) ((a # s) @ v) = Some (r @ v)"
      by (simp only: strip_prefix_Some_iff) simp
    ultimately show ?thesis
      by simp
  next
    case None
    with Cons.prems obtain code' where f: "find_closing s = Some (code', rest)" and c: "code = a # code'"
      by (auto split: option.splits)
    from f have "s = code' @ CHR 0x0A # fence @ rest"
      by (rule find_closing_Some)
    then have "length (CHR 0x0A # fence) \<le> length (a # s)"
      by simp
    with None have "strip_prefix (CHR 0x0A # fence) ((a # s) @ v) = None"
      by (rule strip_prefix_None_extend)
    with Cons.IH [OF f] c show ?thesis
      by simp
  qed
qed

lemma not_word_LF: "\<not> is_word_or_dash (CHR 0x0A)"
  by (simp add: is_word_or_dash_def)

lemma match_at_Some:
  assumes "match_at s = Some (language, code, rest)"
  shows "s = fence @ language @ CHR 0x0A # code @ CHR 0x0A # fence @ rest"
    and "\<forall>x\<in>set language. is_word_or_dash x"
    and "find_closing (code @ CHR 0x0A # fence @ rest) = Some (code, rest)"
proof -
  from assms obtain r1 r3 where a: "strip_prefix fence s = Some r1"
    and b: "dropWhile is_word_or_dash r1 = CHR 0x0A # r3"
    and d: "find_closing r3 = Some (code, rest)"
    and l: "language = takeWhile is_word_or_dash r1"
    by (auto simp: match_at_def split: option.splits list.splits if_splits)
  from d have r3: "r3 = code @ CHR 0x0A # fence @ rest"
    by (rule find_closing_Some)
  have "r1 = takeWhile is_word_or_dash r1 @ dropWhile is_word_or_dash r1"
    by simp
  with b l have "r1 = language @ CHR 0x0A # r3"
    by simp
  with a r3 show "s = fence @ language @ CHR 0x0A # code @ CHR 0x0A # fence @ rest"
    by (simp add: strip_prefix_Some_iff)
  from l show "\<forall>x\<in>set language. is_word_or_dash x"
    by (auto dest: set_takeWhileD)
  from d r3 show "find_closing (code @ CHR 0x0A # fence @ rest) = Some (code, rest)"
    by simp
qed

lemma match_at_block:
  assumes "\<forall>x\<in>set language. is_word_or_dash x"
    and "find_closing r3 = Some (code, rest)"
  shows "match_at (fence @ language @ CHR 0x0A # r3) = Some (language, code, rest)"
proof -
  have "strip_prefix fence (fence @ language @ CHR 0x0A # r3) = Some (language @ CHR 0x0A # r3)"
    by (simp only: strip_prefix_Some_iff)
  moreover have "dropWhile is_word_or_dash (language @ CHR 0x0A # r3) = CHR 0x0A # r3"
    using assms(1) by (simp add: dropWhile_append3 not_word_LF)
  moreover have "takeWhile is_word_or_dash (language @ CHR 0x0A # r3) = language"
    using assms(1) by (simp add: takeWhile_append2 not_word_LF)
  ultimately show ?thesis
    using assms(2) by (simp add: match_at_def)
qed

lemma match_at_truncate:
  assumes "match_at s = Some (language, code, rest)"
  shows "match_at (fence @ language @ CHR 0x0A # code @ CHR 0x0A # fence) = Some (language, code, [])"
proof -
  from match_at_Some(3) [OF assms]
  have "find_closing (code @ CHR 0x0A # fence) = Some (code, [])"
    by (rule find_closing_truncate)
  with match_at_Some(2) [OF assms] show ?thesis
    by (rule match_at_block)
qed

lemma match_at_extend:
  assumes "match_at u = Some (language, code, rest)"
  shows "match_at (u @ v) = Some (language, code, rest @ v)"
proof -
  from match_at_Some(3) [OF assms]
  have "find_closing ((code @ CHR 0x0A # fence @ rest) @ v) = Some (code, rest @ v)"
    by (rule find_closing_extend)
  with match_at_Some(2) [OF assms]
  have "match_at (fence @ language @ CHR 0x0A # (code @ CHR 0x0A # fence @ rest) @ v)
          = Some (language, code, rest @ v)"
    by (rule match_at_block)
  with match_at_Some(1) [OF assms] show ?thesis
    by simp
qed

lemma match_at_Nil: "match_at [] = None"
  by (simp add: match_at_def fence_def)

lemma code_match_None_iff: "code_match p = None \<longleftrightarrow> (\<forall>i<length p. match_at (drop i p) = None)"
proof (induction p)
  case Nil
  then show ?case by simp
next
  case (Cons a p)
  show ?case
  proof (cases "match_at (a # p)")
    case None
    have "(\<forall>i<length (a # p). match_at (drop i (a # p)) = None)
            \<longleftrightarrow> (\<forall>i<length p. match_at (drop i p) = None)"
      using None by (auto simp: less_Suc_eq_0_disj)
    with Cons.IH None show ?thesis
      by simp
  next
    case (Some x)
    then have "\<exists>i<length (a # p). match_at (drop i (a # p)) \<noteq> None"
      by (intro exI [of _ 0]) simp
    with Some show ?thesis
      by (auto split: prod.splits)
  qed
qed

lemma take_matched: "s = m @ r \<Longrightarrow> take (length s - length r) s = m"
  by simp

lemma match_at_taken:
  assumes "match_at s = Some (language, code, rest)"
  shows "take (length s - length rest) s = fence @ language @ CHR 0x0A # code @ CHR 0x0A # fence"
proof -
  from match_at_Some(1) [OF assms]
  have "s = (fence @ language @ CHR 0x0A # code @ CHR 0x0A # fence) @ rest"
    by simp
  then show ?thesis
    by (rule take_matched)
qed

lemma split_concat: "concat (js_split_fences cur s) = cur @ s"
proof (induction cur s rule: js_split_fences.induct)
  case (1 cur)
  then show ?case by simp
next
  case (2 cur c cs)
  show ?case
  proof (cases "match_at (c # cs)")
    case None
    with 2 show ?thesis by simp
  next
    case (Some x)
    obtain language code rest where x: "x = (language, code, rest)"
      by (cases x) auto
    from Some x have m: "match_at (c # cs) = Some (language, code, rest)"
      by simp
    have "concat (js_split_fences cur (c # cs))
            = cur @ take (length (c # cs) - length rest) (c # cs) @ concat (js_split_fences [] rest)"
      using m by simp
    also have "\<dots> = cur @ (fence @ language @ CHR 0x0A # code @ CHR 0x0A # fence) @ rest"
      using 2(2) [OF Some x [symmetric] refl] match_at_taken [OF m] by simp
    also have "\<dots> = cur @ c # cs"
      using match_at_Some(1) [OF m] by simp
    finally show ?thesis .
  qed
qed

lemma code_match_at_start:
  "match_at p = Some (language, code, rest) \<Longrightarrow> code_match p = Some (language, code)"
  by (cases p) (simp_all add: match_at_Nil)

lemma split_parts_code:
  assumes "\<forall>i<length cur. match_at (drop i cur @ s) = None"
  shows "\<forall>part\<in>set (js_split_fences cur s). \<forall>language code.
           code_match part = Some (language, code) \<longrightarrow>
           part = fence @ language @ CHR 0x0A # code @ CHR 0x0A # fence"
  using assms
proof (induction cur s rule: js_split_fences.induct)
  case (1 cur)
  then have "code_match cur = None"
    by (simp add: code_match_None_iff)
  then show ?case by simp
next
  case (2 cur c cs)
  show ?case
  proof (cases "match_at (c # cs)")
    case None
    have "\<forall>i<length (cur @ [c]). match_at (drop i (cur @ [c]) @ cs) = None"
    proof (intro allI impI)
      fix i assume "i < length (cur @ [c])"
      then consider "i < length cur" | "i = length cur"
        by fastforce
      then show "match_at (drop i (cur @ [c]) @ cs) = None"
      proof cases
        case 1
        with 2(3) show ?thesis by simp
      next
        case 2
        with None show ?thesis by simp
      qed
    qed
    with 2(1) [OF None] None show ?thesis
      by simp
  next
    case (Some x)
    obtain language code rest where x: "x = (language, code, rest)"
      by (cases x) auto
    from Some x have m: "match_at (c # cs) = Some (language, code, rest)"
      by simp
    let ?m = "fence @ language @ CHR 0x0A # code @ CHR 0x0A # fence"
    have parts: "js_split_fences cur (c # cs) = cur # ?m # js_split_fences [] rest"
      using m match_at_taken [OF m] by simp
    have "match_at (drop i cur) = None" if "i < length cur" for i
    proof (cases "match_at (drop i cur)")
      case (Some y)
      then obtain l d r where "match_at (drop i cur) = Some (l, d, r)"
        by (cases y) auto
      then have "match_at (drop i cur @ c # cs) = Some (l, d, r @ c # cs)"
        by (rule match_at_extend)
      with 2(3) that show ?thesis by simp
    qed simp
    then have cur: "code_match cur = None"
      by (simp add: code_match_None_iff)
    have blk: "code_match ?m = Some (language, code)"
      using match_at_truncate [OF m] by (rule code_match_at_start)
    have rest: "\<forall>part\<in>set (js_split_fences [] rest). \<forall>language code.
           code_match part = Some (language, code) \<longrightarrow>
           part = fence @ language @ CHR 0x0A # code @ CHR 0x0A # fence"
      using 2(2) [OF Some x [symmetric] refl] by simp
    show ?thesis
      unfolding parts using cur blk rest by simp
  qed
qed


text \<open>
  C9. The parts \<open>processContent\<close> splits the content into concatenate to the content, and
  every part recognised as a code block (the expression matches in it) is exactly one
  fenced block: three backquotes, the language tag, a line feed, the code, a line feed and
  three backquotes; it is rendered with that code as its text, the tag as its label and
  \<open>language-\<close>tag as its class (no label and the class \<open>language-plaintext\<close> when the tag is
  empty).
\<close>

theorem processContent_preserves_content:
  "processContent contents = map render_part (split_code_blocks contents)
   \<and> concat (split_code_blocks contents) = contents
   \<and> (\<forall>part\<in>set (split_code_blocks contents). \<forall>language code.
         code_match part = Some (language, code) \<longrightarrow>
           part = fence @ language @ CHR 0x0A # code @ CHR 0x0A # fence
           \<and> render_part part =
               CodeBlock (if language = [] then None else Some language)
                 (''language-'' @ (if language = [] then ''plaintext'' else language)) code)"
proof -
  have "processContent contents = map render_part (split_code_blocks contents)"
    by (simp add: processContent_def)
  moreover have "concat (split_code_blocks contents) = contents"
    by (simp add: split_code_blocks_def split_concat)
  moreover have "\<forall>part\<in>set (split_code_blocks contents). \<forall>language code.
         code_match part = Some (language, code) \<longrightarrow>
           part = fence @ language @ CHR 0x0A # code @ CHR 0x0A # fence"
    unfolding split_code_blocks_def by (rule split_parts_code) simp
  moreover have "render_part part =
               CodeBlock (if language = [] then None else Some language)
                 (''language-'' @ (if language = [] then ''plaintext'' else language)) code"
    if "code_match part = Some (language, code)" for part language code
    using that by (simp add: render_part_def js_truthy_def)
  ultimately show ?thesis
    by blast
qed

lemma sample_parts:
  "split_code_blocks sample_content
     = [''ab'', fence @ ''js'' @ CHR 0x0A # ''x=1'' @ CHR 0x0A # fence, ''cd'']"
  by code_simp

lemma sample_code_match:
  "code_match (fence @ ''js'' @ CHR 0x0A # ''x=1'' @ CHR 0x0A # fence) = Some (''js'', ''x=1'')"
  by code_simp

theorem processContent_preserves_content_witness:
  "concat (split_code_blocks sample_content) = sample_content
   \<and> fence @ ''js'' @ CHR 0x0A # ''x=1'' @ CHR 0x0A # fence \<in> set (split_code_blocks sample_content)
   \<and> render_part (fence @ ''js'' @ CHR 0x0A # ''x=1'' @ CHR 0x0A # fence)
       = CodeBlock (Some ''js'') ''language-js'' ''x=1''"
proof -
  let ?p = "fence @ ''js'' @ CHR 0x0A # ''x=1'' @ CHR 0x0A # fence"
  have m: "?p \<in> set (split_code_blocks sample_content)"
    by (simp add: sample_parts)
  from processContent_preserves_content [of sample_content]
  have c: "concat (split_code_blocks sample_content) = sample_content"
    and r: "\<forall>part\<in>set (split_code_blocks sample_content). \<forall>language code.
         code_match part = Some (language, code) \<longrightarrow>
           part = fence @ language @ CHR 0x0A # code @ CHR 0x0A # fence
           \<and> render_part part =
               CodeBlock (if language = [] then None else Some language)
                 (''language-'' @ (if language = [] then ''plaintext'' else language)) code"
    by blast+
  from r m sample_code_match
  have "render_part ?p = CodeBlock (if ''js'' = [] then None else Some ''js'')
                 (''language-'' @ (if ''js'' = [] then ''plaintext'' else ''js'')) ''x=1''"
    by blast
  with c m show ?thesis
    by simp
qed

section \<open>Properties of the orchestrator\<close>

lemma finish_turn_fields:
  "phase (finish_turn env s) = Idle"
  "history (finish_turn env s) = history s"
  "depth (finish_turn env s) = depth s"
  "completion_calls (finish_turn env s) = completion_calls s"
  "active_id (finish_turn env s) = active_id s"
  by (simp_all add: finish_turn_def hs_append_def Let_def)

lemma run_turn_Idle: "phase s = Idle \<Longrightarrow> run_turn env s = s"
  by (simp add: run_turn.simps)

lemma run_turn_step: "phase s \<noteq> Idle \<Longrightarrow> run_turn env s = run_turn env (orch_step env s)"
  by (subst run_turn.simps) simp

lemma turn_answers_Idle: "phase s = Idle \<Longrightarrow> turn_answers env s = []"
  by (subst turn_answers.simps) simp

lemma turn_answers_AC:
  "phase s = AwaitingCompletion \<Longrightarrow>
   turn_answers env s = complete env (history s) # turn_answers env (orch_step env s)"
  by (subst turn_answers.simps) simp

lemma turn_answers_RT:
  "phase s = ResolvingTool c \<Longrightarrow> turn_answers env s = turn_answers env (orch_step env s)"
  by (subst turn_answers.simps) simp

lemma is_tool_requestE:
  assumes "is_tool_request r"
  obtains c where "r = Inr (ToolCallRequest c)"
  using assms by (cases r rule: is_tool_request.cases) auto

lemma run_turn_requests_only:
  "phase s = AwaitingCompletion \<Longrightarrow> max_tool_depth env - depth s = n \<Longrightarrow>
   depth s \<le> max_tool_depth env \<Longrightarrow> list_all is_tool_request (turn_answers env s) \<Longrightarrow>
   \<exists>tools. history (run_turn env s) = history s @ tools @
              [Msg \<lparr>msg_role = Assistant, msg_content = limit_notice, tool_call = None\<rparr>]
     \<and> length tools = 2 * n \<and> (\<forall>e\<in>set tools. \<not> is_assistant e)
     \<and> phase (run_turn env s) = Idle
     \<and> depth (run_turn env s) = max_tool_depth env
     \<and> completion_calls (run_turn env s) = completion_calls s + n + 1
     \<and> length (turn_answers env s) = n + 1"
proof (induction n arbitrary: s)
  case 0
  from 0(1,4) have "is_tool_request (complete env (history s))"
    by (simp add: turn_answers_AC)
  then obtain c where c: "complete env (history s) = Inr (ToolCallRequest c)"
    by (rule is_tool_requestE)
  from 0 have d: "\<not> depth s < max_tool_depth env"
    by simp
  let ?s' = "finish_turn env
               (s\<lparr>completion_calls := completion_calls s + 1,
                  history := history s @
                    [Msg \<lparr>msg_role = Assistant, msg_content = limit_notice, tool_call = None\<rparr>]\<rparr>)"
  have st: "orch_step env s = ?s'"
    using 0(1) c d by (simp add: orch_step_def Let_def)
  have "run_turn env s = ?s'"
    using 0(1) st by (simp add: run_turn_step run_turn_Idle finish_turn_fields)
  moreover have "turn_answers env s = [complete env (history s)]"
    using 0(1) st by (simp add: turn_answers_AC turn_answers_Idle finish_turn_fields)
  ultimately show ?case
    using 0 by (simp add: finish_turn_fields)
next
  case (Suc n)
  from Suc.prems(1,4) have "is_tool_request (complete env (history s))"
    and rest: "list_all is_tool_request (turn_answers env (orch_step env s))"
    by (simp_all add: turn_answers_AC)
  then obtain c where c: "complete env (history s) = Inr (ToolCallRequest c)"
    by (auto elim: is_tool_requestE)
  from Suc.prems have d: "depth s < max_tool_depth env"
    by simp
  let ?s1 = "s\<lparr>completion_calls := completion_calls s + 1,
               history := history s @ [ToolCallRecord c], depth := depth s + 1,
               phase := ResolvingTool c\<rparr>"
  have st1: "orch_step env s = ?s1"
    using Suc.prems(1) c d by (simp add: orch_step_def Let_def)
  obtain m where m: "orch_step env ?s1 = ?s1\<lparr>history := history ?s1 @ [Msg m],
                         phase := AwaitingCompletion\<rparr>" and mr: "msg_role m = Tool"
    by (cases "call_tool env c") (auto simp: orch_step_def)
  let ?s2 = "?s1\<lparr>history := history ?s1 @ [Msg m], phase := AwaitingCompletion\<rparr>"
  have run: "run_turn env s = run_turn env ?s2"
    using Suc.prems(1) st1 m by (simp add: run_turn_step)
  have ans1: "turn_answers env ?s1 = turn_answers env ?s2"
    using m turn_answers_RT [of ?s1 c env] by simp
  have ans: "turn_answers env s = complete env (history s) # turn_answers env ?s2"
    using Suc.prems(1) st1 ans1 by (simp add: turn_answers_AC)
  from rest st1 ans1 have rest2: "list_all is_tool_request (turn_answers env ?s2)"
    by simp
  have "\<exists>tools. history (run_turn env ?s2) = history ?s2 @ tools @
                    [Msg \<lparr>msg_role = Assistant, msg_content = limit_notice, tool_call = None\<rparr>]
           \<and> length tools = 2 * n \<and> (\<forall>e\<in>set tools. \<not> is_assistant e)
           \<and> phase (run_turn env ?s2) = Idle
           \<and> depth (run_turn env ?s2) = max_tool_depth env
           \<and> completion_calls (run_turn env ?s2) = completion_calls ?s2 + n + 1
           \<and> length (turn_answers env ?s2) = n + 1"
    using Suc.prems(2,3) d rest2 by (intro Suc.IH) auto
  then obtain tools where t: "history (run_turn env ?s2) = history ?s2 @ tools @
                    [Msg \<lparr>msg_role = Assistant, msg_content = limit_notice, tool_call = None\<rparr>]"
      "length tools = 2 * n" "\<forall>e\<in>set tools. \<not> is_assistant e"
      "phase (run_turn env ?s2) = Idle"
      "depth (run_turn env ?s2) = max_tool_depth env"
      "completion_calls (run_turn env ?s2) = completion_calls ?s2 + n + 1"
      "length (turn_answers env ?s2) = n + 1"
    by blast
  show ?case
  proof (intro exI [of _ "ToolCallRecord c # Msg m # tools"] conjI)
    show "history (run_turn env s) = history s @ (ToolCallRecord c # Msg m # tools) @
        [Msg \<lparr>msg_role = Assistant, msg_content = limit_notice, tool_call = None\<rparr>]"
      using run t(1) by simp
    show "length (ToolCallRecord c # Msg m # tools) = 2 * Suc n"
      using t(2) by simp
    show "\<forall>e\<in>set (ToolCallRecord c # Msg m # tools). \<not> is_assistant e"
      using t(3) mr by simp
    show "phase (run_turn env s) = Idle"
      using run t(4) by simp
    show "depth (run_turn env s) = max_tool_depth env"
      using run t(5) by simp
    show "completion_calls (run_turn env s) = completion_calls s + Suc n + 1"
      using run t(6) by simp
    show "length (turn_answers env s) = Suc n + 1"
      using ans t(7) by simp
  qed
qed

lemma resolved_append: "resolved xs \<Longrightarrow> resolved (xs @ ys) = resolved ys"
  by (induction xs rule: resolved.induct) auto

lemma finish_turn_ok:
  assumes "failure s = None" and "failure (finish_turn env s) = None"
  shows "write_log (store (finish_turn env s)) = write_log (store s) @ [(active_id s, history s)]"
    and "records (store (finish_turn env s)) (active_id s) = Some (history s)"
  using assms
  by (auto simp: finish_turn_def hs_append_def Let_def split: if_splits)

lemma step_to_Idle:
  assumes "phase s \<noteq> Idle" and "failure s = None"
    and "phase (orch_step env s) = Idle" and "failure (orch_step env s) = None"
  shows "\<exists>a. msg_role a = Assistant
           \<and> history (orch_step env s) = history s @ [Msg a]
           \<and> write_log (store (orch_step env s))
               = write_log (store s) @ [(active_id s, history s @ [Msg a])]
           \<and> records (store (orch_step env s)) (active_id s) = Some (history s @ [Msg a])
           \<and> active_id (orch_step env s) = active_id s"
proof (cases "phase s")
  case Idle
  with assms show ?thesis by simp
next
  case (ResolvingTool c)
  with assms(3) show ?thesis
    by (auto simp: orch_step_def split: sum.splits)
next
  case AwaitingCompletion
  let ?s1 = "s\<lparr>completion_calls := completion_calls s + 1\<rparr>"
  show ?thesis
  proof (cases "complete env (history s)")
    case (Inl e)
    with AwaitingCompletion assms(4) show ?thesis
      by (simp add: orch_step_def Let_def)
  next
    case (Inr r)
    obtain a where a: "msg_role a = Assistant"
      and st: "orch_step env s = finish_turn env (?s1\<lparr>history := history s @ [Msg a]\<rparr>)"
    proof (cases r)
      case (FinalAnswer t)
      with Inr AwaitingCompletion
      have "orch_step env s = finish_turn env (?s1\<lparr>history := history s @
              [Msg \<lparr>msg_role = Assistant, msg_content = t, tool_call = None\<rparr>]\<rparr>)"
        by (simp add: orch_step_def Let_def)
      with that show ?thesis
        by (metis OMessage.select_convs(1))
    next
      case (ToolCallRequest c)
      with Inr AwaitingCompletion assms(3)
      have "orch_step env s = finish_turn env (?s1\<lparr>history := history s @
              [Msg \<lparr>msg_role = Assistant, msg_content = limit_notice, tool_call = None\<rparr>]\<rparr>)"
        by (auto simp: orch_step_def Let_def split: if_splits)
      with that show ?thesis
        by (metis OMessage.select_convs(1))
    qed
    let ?s2 = "?s1\<lparr>history := history s @ [Msg a]\<rparr>"
    have f: "failure ?s2 = None"
      using assms(2) by simp
    from finish_turn_ok [OF f] assms(4) st a show ?thesis
      by (auto simp: finish_turn_fields)
  qed
qed

lemma step_not_Idle:
  assumes "phase s \<noteq> Idle" and "phase (orch_step env s) \<noteq> Idle"
  shows "\<exists>x. is_tool x \<and> history (orch_step env s) = history s @ [x]
           \<and> store (orch_step env s) = store s
           \<and> active_id (orch_step env s) = active_id s
           \<and> failure (orch_step env s) = failure s"
  using assms
  by (cases "phase s")
    (auto simp: orch_step_def Let_def finish_turn_fields
      split: sum.splits CompletionResult.splits if_splits)

lemma step_well_formed: "well_formed s \<Longrightarrow> well_formed (orch_step env s)"
proof (cases "phase s")
  case Idle
  then show "well_formed s \<Longrightarrow> ?thesis"
    by (simp add: orch_step_def)
next
  case AwaitingCompletion
  then show "well_formed s \<Longrightarrow> ?thesis"
    by (auto simp: orch_step_def well_formed_def Let_def finish_turn_def hs_append_def
        resolved_append split: sum.splits CompletionResult.splits)
next
  case (ResolvingTool c)
  assume w: "well_formed s"
  with ResolvingTool have "history s = butlast (history s) @ [ToolCallRecord c]"
    and "resolved (butlast (history s))"
    by (auto simp: well_formed_def dest: append_butlast_last_id)
  then obtain h0 where h: "history s = h0 @ [ToolCallRecord c]" and r: "resolved h0"
    by blast
  have "well_formed (s\<lparr>history := history s @ [Msg m], phase := AwaitingCompletion\<rparr>)"
    if "msg_role m = Tool" "tool_call m = Some c" for m
    using h r that by (simp add: well_formed_def resolved_append)
  with ResolvingTool show ?thesis
    by (auto simp: orch_step_def split: sum.splits)
qed

lemma run_turn_well_formed: "well_formed s \<Longrightarrow> well_formed (run_turn env s)"
proof (induction env s rule: run_turn.induct)
  case (1 env s)
  show ?case
  proof (cases "phase s = Idle")
    case True
    with 1 show ?thesis by (simp add: run_turn_Idle)
  next
    case False
    with 1 show ?thesis
      by (simp add: run_turn_step step_well_formed)
  qed
qed

lemma run_turn_ends_Idle: "phase (run_turn env s) = Idle"
proof (induction env s rule: run_turn.induct)
  case (1 env s)
  then show ?case
    by (cases "phase s = Idle") (simp_all add: run_turn_Idle run_turn_step)
qed

lemma run_turn_completed:
  "phase s \<noteq> Idle \<Longrightarrow> failure s = None \<Longrightarrow> failure (run_turn env s) = None \<Longrightarrow>
   (\<exists>tools a. history (run_turn env s) = history s @ tools @ [Msg a]
       \<and> msg_role a = Assistant \<and> (\<forall>e\<in>set tools. is_tool e))
   \<and> write_log (store (run_turn env s))
       = write_log (store s) @ [(active_id s, history (run_turn env s))]
   \<and> records (store (run_turn env s)) (active_id s) = Some (history (run_turn env s))
   \<and> active_id (run_turn env s) = active_id s"
proof (induction env s rule: run_turn.induct)
  case (1 env s)
  have run: "run_turn env s = run_turn env (orch_step env s)"
    using "1.prems"(1) by (rule run_turn_step)
  show ?case
  proof (cases "phase (orch_step env s) = Idle")
    case True
    then have r: "run_turn env s = orch_step env s"
      using run by (simp add: run_turn_Idle)
    with "1.prems" have "failure (orch_step env s) = None"
      by simp
    from step_to_Idle [OF "1.prems"(1,2) True this]
    obtain a where "msg_role a = Assistant"
      "history (orch_step env s) = history s @ [Msg a]"
      "write_log (store (orch_step env s))
               = write_log (store s) @ [(active_id s, history s @ [Msg a])]"
      "records (store (orch_step env s)) (active_id s) = Some (history s @ [Msg a])"
      "active_id (orch_step env s) = active_id s"
      by blast
    then show ?thesis
      unfolding r by (intro conjI exI [of _ "[]"] exI [of _ a]) simp_all
  next
    case False
    from step_not_Idle [OF "1.prems"(1) False]
    obtain x where x: "is_tool x" "history (orch_step env s) = history s @ [x]"
      "store (orch_step env s) = store s" "active_id (orch_step env s) = active_id s"
      "failure (orch_step env s) = failure s"
      by blast
    have "(\<exists>tools a. history (run_turn env (orch_step env s))
              = history (orch_step env s) @ tools @ [Msg a]
             \<and> msg_role a = Assistant \<and> (\<forall>e\<in>set tools. is_tool e))
      \<and> write_log (store (run_turn env (orch_step env s)))
          = write_log (store (orch_step env s))
            @ [(active_id (orch_step env s), history (run_turn env (orch_step env s)))]
      \<and> records (store (run_turn env (orch_step env s))) (active_id (orch_step env s))
          = Some (history (run_turn env (orch_step env s)))
      \<and> active_id (run_turn env (orch_step env s)) = active_id (orch_step env s)"
      using "1.prems" x(5) run by (intro "1.IH" False) simp_all
    then obtain tools a where t:
      "history (run_turn env s) = history s @ (x # tools) @ [Msg a]"
      "msg_role a = Assistant" "\<forall>e\<in>set tools. is_tool e"
      and rest: "write_log (store (run_turn env s))
          = write_log (store s) @ [(active_id s, history (run_turn env s))]"
        "records (store (run_turn env s)) (active_id s) = Some (history (run_turn env s))"
        "active_id (run_turn env s) = active_id s"
      unfolding run x by auto
    from t x(1) have "\<exists>tools a. history (run_turn env s) = history s @ tools @ [Msg a]
       \<and> msg_role a = Assistant \<and> (\<forall>e\<in>set tools. is_tool e)"
      by (intro exI [of _ "x # tools"] exI [of _ a]) simp
    with rest show ?thesis
      by blast
  qed
qed

lemma sendMessage_completed:
  assumes idle: "phase s = Idle" and ok: "orch_sendMessage env s t = (Inr msgs, s')"
  shows "\<exists>tools a. history s' = history s
             @ Msg \<lparr>msg_role = User, msg_content = t, tool_call = None\<rparr> # tools @ [Msg a]
           \<and> msg_role a = Assistant \<and> (\<forall>e\<in>set tools. is_tool e)"
    and "msgs = history s'"
    and "write_log (store s') = write_log (store s) @ [(active_id s, history s')]"
    and "records (store s') (active_id s) = Some (history s')"
    and "active_id s' = active_id s"
    and "phase s' = Idle"
    and "resolved (history s) \<Longrightarrow> resolved (history s')"
proof -
  let ?s0 = "s\<lparr>history := history s @
                 [Msg \<lparr>msg_role = User, msg_content = t, tool_call = None\<rparr>],
               phase := AwaitingCompletion, depth := 0, failure := None\<rparr>"
  from idle ok have s': "s' = run_turn env ?s0" and f: "failure (run_turn env ?s0) = None"
    and m: "msgs = history (run_turn env ?s0)"
    by (auto simp: orch_sendMessage_def Let_def split: option.splits)
  from m s' show "msgs = history s'"
    by simp
  have "(\<exists>tools a. history (run_turn env ?s0) = history ?s0 @ tools @ [Msg a]
       \<and> msg_role a = Assistant \<and> (\<forall>e\<in>set tools. is_tool e))
   \<and> write_log (store (run_turn env ?s0))
       = write_log (store ?s0) @ [(active_id ?s0, history (run_turn env ?s0))]
   \<and> records (store (run_turn env ?s0)) (active_id ?s0) = Some (history (run_turn env ?s0))
   \<and> active_id (run_turn env ?s0) = active_id ?s0"
    using f by (intro run_turn_completed) simp_all
  then show "\<exists>tools a. history s' = history s
             @ Msg \<lparr>msg_role = User, msg_content = t, tool_call = None\<rparr> # tools @ [Msg a]
           \<and> msg_role a = Assistant \<and> (\<forall>e\<in>set tools. is_tool e)"
    and "write_log (store s') = write_log (store s) @ [(active_id s, history s')]"
    and "records (store s') (active_id s) = Some (history s')"
    and "active_id s' = active_id s"
    unfolding s' by simp_all
  show "phase s' = Idle"
    unfolding s' by (rule run_turn_ends_Idle)
  show "resolved (history s')" if "resolved (history s)"
  proof -
    from that have "well_formed ?s0"
      by (simp add: well_formed_def resolved_append)
    then have "well_formed (run_turn env ?s0)"
      by (rule run_turn_well_formed)
    then show ?thesis
      unfolding s' by (simp add: well_formed_def run_turn_ends_Idle)
  qed
qed

lemma sendMessage_run: "phase s = Idle \<Longrightarrow> snd (orch_sendMessage env s t) = run_turn env (turn_start s t)"
  by (simp add: orch_sendMessage_def turn_start_def Let_def)

text \<open>
  C1. In a turn in which every answer of the Completion Client is a tool-call request,
  the resolution loop ends (the state is \<open>Idle\<close> again) after \<open>max_tool_depth\<close> tool calls
  and \<open>max_tool_depth + 1\<close> answers of the client. The turn appends the user Message, the
  \<open>max_tool_depth\<close> tool exchanges (a record and a tool Message each, none of them an
  assistant Message) and exactly one assistant Message, the synthesized one that says the
  limit was reached.
\<close>

theorem tool_loop_bounded:
  assumes "phase s = Idle"
    and "list_all is_tool_request (sendMessage_answers env s t)"
  shows "\<exists>tools. history (snd (orch_sendMessage env s t))
           = history s @ Msg \<lparr>msg_role = User, msg_content = t, tool_call = None\<rparr> # tools
             @ [Msg \<lparr>msg_role = Assistant, msg_content = limit_notice, tool_call = None\<rparr>]
         \<and> length tools = 2 * max_tool_depth env
         \<and> (\<forall>e\<in>set tools. \<not> is_assistant e)
         \<and> length (filter is_assistant
               (drop (length (history s)) (history (snd (orch_sendMessage env s t))))) = 1
         \<and> phase (snd (orch_sendMessage env s t)) = Idle
         \<and> depth (snd (orch_sendMessage env s t)) = max_tool_depth env
         \<and> length (sendMessage_answers env s t) = max_tool_depth env + 1
         \<and> completion_calls (snd (orch_sendMessage env s t))
             = completion_calls s + max_tool_depth env + 1"
proof -
  let ?s0 = "turn_start s t"
  have snd: "snd (orch_sendMessage env s t) = run_turn env ?s0"
    using assms(1) by (rule sendMessage_run)
  have "\<exists>tools. history (run_turn env ?s0) = history ?s0 @ tools @
                    [Msg \<lparr>msg_role = Assistant, msg_content = limit_notice, tool_call = None\<rparr>]
           \<and> length tools = 2 * max_tool_depth env \<and> (\<forall>e\<in>set tools. \<not> is_assistant e)
           \<and> phase (run_turn env ?s0) = Idle
           \<and> depth (run_turn env ?s0) = max_tool_depth env
           \<and> completion_calls (run_turn env ?s0) = completion_calls ?s0 + max_tool_depth env + 1
           \<and> length (turn_answers env ?s0) = max_tool_depth env + 1"
    using assms(2) by (intro run_turn_requests_only) (simp_all add: turn_start_def sendMessage_answers_def)
  then obtain tools where t: "history (run_turn env ?s0) = history ?s0 @ tools @
                    [Msg \<lparr>msg_role = Assistant, msg_content = limit_notice, tool_call = None\<rparr>]"
    "length tools = 2 * max_tool_depth env" "\<forall>e\<in>set tools. \<not> is_assistant e"
    "phase (run_turn env ?s0) = Idle" "depth (run_turn env ?s0) = max_tool_depth env"
    "completion_calls (run_turn env ?s0) = completion_calls ?s0 + max_tool_depth env + 1"
    "length (turn_answers env ?s0) = max_tool_depth env + 1"
    by blast
  from t(3) have "filter is_assistant tools = []"
    by (simp add: filter_empty_conv)
  with t(1) have "length (filter is_assistant
               (drop (length (history s)) (history (run_turn env ?s0)))) = 1"
    by (simp add: turn_start_def)
  with t show ?thesis
    unfolding snd by (intro exI [of _ tools]) (simp add: turn_start_def sendMessage_answers_def)
qed

lemma answers_in_turn:
  "sendMessage_answers env_tool_in_turn orch_initial ''hi''
     = [Inr (ToolCallRequest (docs_call 1)), Inr (ToolCallRequest (docs_call 3)),
        Inr (ToolCallRequest (docs_call 5))]"
  by (simp add: sendMessage_answers_def turn_start_def turn_answers.simps orch_step_def
      finish_turn_def hs_append_def env_tool_in_turn_def orch_initial_def docs_call_def Let_def)

theorem tool_loop_bounded_witness:
  "complete env_tool_in_turn [] = Inr (FinalAnswer ''idle'')
   \<and> (\<exists>tools. history (snd (orch_sendMessage env_tool_in_turn orch_initial ''hi''))
           = Msg \<lparr>msg_role = User, msg_content = ''hi'', tool_call = None\<rparr> # tools
             @ [Msg \<lparr>msg_role = Assistant, msg_content = limit_notice, tool_call = None\<rparr>]
         \<and> length tools = 4
         \<and> completion_calls (snd (orch_sendMessage env_tool_in_turn orch_initial ''hi'')) = 3)"
proof -
  have h: "list_all is_tool_request (sendMessage_answers env_tool_in_turn orch_initial ''hi'')"
    by (simp add: answers_in_turn)
  have i: "phase orch_initial = Idle"
    by (simp add: orch_initial_def)
  from tool_loop_bounded [OF i h] show ?thesis
    by (auto simp: env_tool_in_turn_def orch_initial_def)
qed

text \<open>
  C4. The value a successful \<open>sendMessage(text)\<close> returns is the full sequence of the
  active conversation: the history from before the call, the user Message for \<open>text\<close>, the
  tool-call records and tool Messages of the turn, and the final assistant Message; it is
  what \<open>getConversationHistory\<close> returns afterwards.
\<close>

theorem sendMessage_returns_full_sequence:
  assumes "phase s = Idle" and "orch_sendMessage env s t = (Inr msgs, s')"
  shows "\<exists>tools a. msgs = history s
             @ Msg \<lparr>msg_role = User, msg_content = t, tool_call = None\<rparr> # tools @ [Msg a]
           \<and> msg_role a = Assistant \<and> (\<forall>e\<in>set tools. is_tool e)
           \<and> getConversationHistory s' = msgs"
  using sendMessage_completed(1,2) [OF assms]
  by (simp add: getConversationHistory_def)

lemma one_tool_turn:
  "fst (orch_sendMessage env_one_tool orch_initial ''hi'')
     = Inr [Msg \<lparr>msg_role = User, msg_content = ''hi'', tool_call = None\<rparr>,
            ToolCallRecord (docs_call 1),
            Msg \<lparr>msg_role = Tool, msg_content = ''Tool call failed: Timeout'',
                 tool_call = Some (docs_call 1)\<rparr>,
            Msg \<lparr>msg_role = Assistant, msg_content = ''done'', tool_call = None\<rparr>]"
  by (simp add: orch_sendMessage_def run_turn.simps orch_step_def finish_turn_def hs_append_def
      env_one_tool_def orch_initial_def Let_def)

theorem sendMessage_returns_full_sequence_witness:
  "\<exists>tools a. [Msg \<lparr>msg_role = User, msg_content = ''hi'', tool_call = None\<rparr>,
            ToolCallRecord (docs_call 1),
            Msg \<lparr>msg_role = Tool, msg_content = ''Tool call failed: Timeout'',
                 tool_call = Some (docs_call 1)\<rparr>,
            Msg \<lparr>msg_role = Assistant, msg_content = ''done'', tool_call = None\<rparr>]
       = history orch_initial
             @ Msg \<lparr>msg_role = User, msg_content = ''hi'', tool_call = None\<rparr> # tools @ [Msg a]
           \<and> msg_role a = Assistant
           \<and> getConversationHistory (snd (orch_sendMessage env_one_tool orch_initial ''hi''))
              = [Msg \<lparr>msg_role = User, msg_content = ''hi'', tool_call = None\<rparr>,
            ToolCallRecord (docs_call 1),
            Msg \<lparr>msg_role = Tool, msg_content = ''Tool call failed: Timeout'',
                 tool_call = Some (docs_call 1)\<rparr>,
            Msg \<lparr>msg_role = Assistant, msg_content = ''done'', tool_call = None\<rparr>]"
proof -
  have i: "phase orch_initial = Idle"
    by (simp add: orch_initial_def)
  have e: "orch_sendMessage env_one_tool orch_initial ''hi''
     = (Inr [Msg \<lparr>msg_role = User, msg_content = ''hi'', tool_call = None\<rparr>,
            ToolCallRecord (docs_call 1),
            Msg \<lparr>msg_role = Tool, msg_content = ''Tool call failed: Timeout'',
                 tool_call = Some (docs_call 1)\<rparr>,
            Msg \<lparr>msg_role = Assistant, msg_content = ''done'', tool_call = None\<rparr>],
        snd (orch_sendMessage env_one_tool orch_initial ''hi''))"
    using one_tool_turn by (simp add: prod_eq_iff)
  from sendMessage_returns_full_sequence [OF i e] show ?thesis
    by blast
qed

text \<open>
  C2. In every sequence of completed turns, started in \<open>Idle\<close> with a resolved sequence,
  each turn invokes the store's \<open>append\<close> exactly once (the log grows by one entry), with
  the in-memory sequence as it is after the turn, which ends with the turn's final
  assistant Message; after the turn the persisted record of the conversation equals the
  in-memory sequence, and it holds no tool-call record without its resolution.
\<close>

theorem persisted_equals_in_memory:
  assumes "phase s = Idle" and "resolved (history s)" and "orch_turns env s ts = Some ss"
  shows "length ss = length ts
         \<and> (\<forall>k<length ss.
               write_log (store (ss ! k))
                 = write_log (store ((s # ss) ! k)) @ [(active_id s, history (ss ! k))]
               \<and> records (store (ss ! k)) (active_id s) = Some (history (ss ! k))
               \<and> is_assistant (last (history (ss ! k)))
               \<and> resolved (history (ss ! k))
               \<and> phase (ss ! k) = Idle)"
  using assms
proof (induction ts arbitrary: s ss)
  case Nil
  then show ?case by simp
next
  case (Cons t ts)
  from Cons.prems(3) obtain msgs s' ss' where
    ok: "orch_sendMessage env s t = (Inr msgs, s')" and
    rest: "orch_turns env s' ts = Some ss'" and ss: "ss = s' # ss'"
    by (auto split: prod.splits sum.splits option.splits)
  note c = sendMessage_completed [OF Cons.prems(1) ok]
  from c(7) Cons.prems(2) have r: "resolved (history s')"
    by simp
  from Cons.IH [OF c(6) r rest] c(5)
  have len: "length ss' = length ts"
    and ih: "\<forall>k<length ss'.
               write_log (store (ss' ! k))
                 = write_log (store ((s' # ss') ! k)) @ [(active_id s, history (ss' ! k))]
               \<and> records (store (ss' ! k)) (active_id s) = Some (history (ss' ! k))
               \<and> is_assistant (last (history (ss' ! k)))
               \<and> resolved (history (ss' ! k))
               \<and> phase (ss' ! k) = Idle"
    by simp_all
  have "write_log (store (ss ! k))
                 = write_log (store ((s # ss) ! k)) @ [(active_id s, history (ss ! k))]
               \<and> records (store (ss ! k)) (active_id s) = Some (history (ss ! k))
               \<and> is_assistant (last (history (ss ! k)))
               \<and> resolved (history (ss ! k))
               \<and> phase (ss ! k) = Idle" if "k < length ss" for k
  proof (cases k)
    case 0
    from c(1) have "is_assistant (last (history s'))"
      by auto
    with c r ss 0 show ?thesis by simp
  next
    case (Suc j)
    with that ss have "j < length ss'"
      by simp
    with ih Suc ss show ?thesis
      by simp
  qed
  with len ss show ?case
    by simp
qed

lemma orch_turns_single:
  "fst (orch_sendMessage env s t) = Inr msgs \<Longrightarrow>
   orch_turns env s [t] = Some [snd (orch_sendMessage env s t)]"
  by (cases "orch_sendMessage env s t") simp

theorem persisted_equals_in_memory_witness:
  "\<exists>s'. orch_turns env_one_tool orch_initial [''hi''] = Some [s']
       \<and> write_log (store s') = [(0, history s')]
       \<and> records (store s') 0 = Some (history s')
       \<and> resolved (history s')"
proof -
  let ?s' = "snd (orch_sendMessage env_one_tool orch_initial ''hi'')"
  have i: "phase orch_initial = Idle" and r: "resolved (history orch_initial)"
    by (simp_all add: orch_initial_def)
  have t: "orch_turns env_one_tool orch_initial [''hi''] = Some [?s']"
    using one_tool_turn by (rule orch_turns_single)
  from persisted_equals_in_memory [OF i r t]
  have "write_log (store ([?s'] ! 0))
                 = write_log (store ((orch_initial # [?s']) ! 0))
                   @ [(active_id orch_initial, history ([?s'] ! 0))]
               \<and> records (store ([?s'] ! 0)) (active_id orch_initial) = Some (history ([?s'] ! 0))
               \<and> is_assistant (last (history ([?s'] ! 0)))
               \<and> resolved (history ([?s'] ! 0))"
    by simp
  with t show ?thesis
    by (simp add: orch_initial_def)
qed

section \<open>Properties of the Tool Process Manager\<close>



end
